theory Spec2Isabelle
  imports Main
begin

section \<open>myfind: searching a directory tree for file names\<close>

text \<open>
  The development embeds \<^verbatim>\<open>src/myfind.cpp\<close>: the string comparison
  \<^verbatim>\<open>isEqualString\<close>, the directory walk \<^verbatim>\<open>searchForFile\<close>, the body of a
  forked child, and the parent's argument check and fork loop in \<^verbatim>\<open>main\<close>.

  What the operating system answers is data of the model: the directory tree as
  \<^verbatim>\<open>opendir\<close>, \<^verbatim>\<open>readdir\<close> and \<^verbatim>\<open>realpath\<close> show it, the process id, and the
  outcome of every \<^verbatim>\<open>write\<close>, \<^verbatim>\<open>pipe\<close> and \<^verbatim>\<open>fork\<close> call. What a process does
  to the outside is kept in a record of its output streams.
\<close>

subsection \<open>Strings\<close>

text \<open>
  \<^verbatim>\<open>std::string::c_str\<close> hands a NUL-terminated buffer to the C library, which reads
  the bytes before the first NUL.
\<close>

definition c_str :: "string \<Rightarrow> string" where
  "c_str s = takeWhile (\<lambda>c. c \<noteq> CHR 0x00) s"

text \<open>
  The program never calls \<^verbatim>\<open>setlocale\<close>, so \<^verbatim>\<open>strcasecmp\<close> folds in the C locale:
  the bytes \<^verbatim>\<open>A\<close> to \<^verbatim>\<open>Z\<close> (65 to 90) go to \<^verbatim>\<open>a\<close> to \<^verbatim>\<open>z\<close>, every other byte is kept.
\<close>

definition tolower :: "char \<Rightarrow> char" where
  "tolower c = (let n = (of_char c :: nat) in if 65 \<le> n \<and> n \<le> 90 then char_of (n + 32) else c)"

text \<open>
  \<^verbatim>\<open>strcasecmp\<close> on the bytes before the terminator: the difference of the first pair
  of folded bytes that differ, the terminator counting as byte 0.
\<close>

fun strcasecmp :: "string \<Rightarrow> string \<Rightarrow> int" where
  "strcasecmp [] [] = 0"
| "strcasecmp [] (y # ys) = 0 - int (of_char (tolower y))"
| "strcasecmp (x # xs) [] = int (of_char (tolower x))"
| "strcasecmp (x # xs) (y # ys) =
     (if tolower x = tolower y then strcasecmp xs ys
      else int (of_char (tolower x)) - int (of_char (tolower y)))"

text \<open>\<^verbatim>\<open>isEqualString\<close> (lines 29 to 34).\<close>

definition isEqualString :: "string \<Rightarrow> string \<Rightarrow> bool \<Rightarrow> bool" where
  "isEqualString s1 s2 ignoreCase =
     (if ignoreCase then strcasecmp (c_str s1) (c_str s2) = 0 else s1 = s2)"

text \<open>\<^verbatim>\<open>std::to_string\<close> on a process id, which is positive: its decimal digits.\<close>

definition digit_char :: "nat \<Rightarrow> char" where
  "digit_char d = ''0123456789'' ! (d mod 10)"

fun to_string :: "nat \<Rightarrow> string" where
  "to_string n = (if n < 10 then [digit_char n] else to_string (n div 10) @ [digit_char n])"

declare to_string.simps [simp del]

subsection \<open>The file system and the process\<close>

text \<open>The entry types of \<^verbatim>\<open>dirent.h\<close>.\<close>

datatype d_type =
  DT_UNKNOWN | DT_FIFO | DT_CHR | DT_DIR | DT_BLK | DT_REG | DT_LNK | DT_SOCK | DT_WHT

text \<open>
  A directory as the walk sees it: \<^verbatim>\<open>opendir\<close> fails with an errno, or it succeeds
  and \<^verbatim>\<open>readdir\<close> returns the entries in the given order (the pseudo entries
  \<^verbatim>\<open>.\<close> and \<^verbatim>\<open>..\<close> among them, when the file system lists them). An entry
  carries its name, the type \<^verbatim>\<open>readdir\<close> reports, what \<^verbatim>\<open>realpath\<close> answers for
  its path (\<open>None\<close> for \<^verbatim>\<open>NULL\<close>), and what \<^verbatim>\<open>opendir\<close> on its path would give.
  Directories have no hard links and \<^verbatim>\<open>readdir\<close> reports a symbolic link as
  \<^verbatim>\<open>DT_LNK\<close>, so below entries of type \<^verbatim>\<open>DT_DIR\<close> other than the pseudo entries
  the walk meets a finite tree.
\<close>

datatype dir = OpenFails nat | Entries "dirent list"
and dirent = Dirent (d_name: string) (d_type: d_type) (resolved: "string option") (subdir: dir)

definition EACCES :: nat where "EACCES = 13"
definition EXIT_SUCCESS :: nat where "EXIT_SUCCESS = 0"
definition EXIT_FAILURE :: nat where "EXIT_FAILURE = 1"

text \<open>
  What one process has done: the buffers \<^verbatim>\<open>write\<close> accepted on the write end of the
  pipe, what it put on standard error (a \<^verbatim>\<open>perror\<close> call with its message and the
  errno, or text streamed to \<^verbatim>\<open>std::cerr\<close>), and the paths it passed to
  \<^verbatim>\<open>opendir\<close>, each in call order.
\<close>

datatype err_line = Perror string nat | Cerr string

record proc =
  pipe_out :: "string list"
  err_out :: "err_line list"
  opened :: "string list"

definition proc0 :: proc where
  "proc0 = \<lparr>pipe_out = [], err_out = [], opened = []\<rparr>"

text \<open>
  What the system answers to one process: \<^verbatim>\<open>getpid\<close>, and for the \<^verbatim>\<open>write\<close> call
  made when \<open>n\<close> buffers are already in the pipe, the errno of its failure
  (\<open>None\<close> when the write is accepted). The write end of the pipe is blocking, so an
  accepted write takes the whole buffer; the code tests the return value for a negative
  number only.
\<close>

record env =
  getpid :: nat
  write_err :: "nat \<Rightarrow> nat option"

text \<open>A function returns a value, or the process has called \<^verbatim>\<open>exit\<close> with a status.\<close>

datatype 'a res = Return 'a | Exit nat

definition perror :: "string \<Rightarrow> nat \<Rightarrow> proc \<Rightarrow> proc" where
  "perror msg errno s = s\<lparr>err_out := err_out s @ [Perror msg errno]\<rparr>"

definition write_pipe :: "env \<Rightarrow> string \<Rightarrow> proc \<Rightarrow> nat option \<times> proc" where
  "write_pipe e buf s =
     (case write_err e (length (pipe_out s)) of
        None \<Rightarrow> (None, s\<lparr>pipe_out := pipe_out s @ [buf]\<rparr>)
      | Some errno \<Rightarrow> (Some errno, s))"

text \<open>\<^verbatim>\<open>handleErrorOpeningDir\<close> (lines 37 to 45).\<close>

definition handleErrorOpeningDir :: "string \<Rightarrow> nat \<Rightarrow> proc \<Rightarrow> proc" where
  "handleErrorOpeningDir path errno s =
     (if errno = EACCES then perror (''Access denied to directory: '' @ path) errno s
      else perror (''Failed to open directory: '' @ path) errno s)"

subsection \<open>The walk\<close>

text \<open>The two lines a child writes (lines 76 and 159), from the value of \<^verbatim>\<open>getpid\<close>.\<close>

definition found_line :: "nat \<Rightarrow> string \<Rightarrow> string \<Rightarrow> string" where
  "found_line pid filename absPath =
     to_string pid @ '': '' @ filename @ '': '' @ absPath @ [CHR 0x0A]"

definition notfound_line :: "nat \<Rightarrow> string \<Rightarrow> string \<Rightarrow> string" where
  "notfound_line pid filename searchpath =
     to_string pid @ '': '' @ filename @ '': File not found in '' @ searchpath @ [CHR 0x0A]"

text \<open>
  \<^verbatim>\<open>searchForFile\<close> (lines 48 to 95), with the \<^verbatim>\<open>while\<close> loop over \<^verbatim>\<open>readdir\<close> as
  \<open>readdir_loop\<close>; the loop carries the local \<^verbatim>\<open>isFound\<close>. In line 68 the
  operator \<^verbatim>\<open>||\<close> evaluates its right operand, the recursive call, only when
  \<^verbatim>\<open>isFound\<close> is false.
\<close>

fun searchForFile :: "env \<Rightarrow> string \<Rightarrow> string \<Rightarrow> bool \<Rightarrow> bool \<Rightarrow> dir \<Rightarrow> proc \<Rightarrow> bool res \<times> proc"
and readdir_loop ::
  "env \<Rightarrow> string \<Rightarrow> string \<Rightarrow> bool \<Rightarrow> bool \<Rightarrow> dirent list \<Rightarrow> bool \<Rightarrow> proc \<Rightarrow> bool res \<times> proc"
where
  "searchForFile e path filename isRecursive ignoreCase (OpenFails errno) s =
     (Return False, handleErrorOpeningDir path errno (s\<lparr>opened := opened s @ [path]\<rparr>))"
| "searchForFile e path filename isRecursive ignoreCase (Entries ents) s =
     readdir_loop e path filename isRecursive ignoreCase ents False
       (s\<lparr>opened := opened s @ [path]\<rparr>)"
| "readdir_loop e path filename isRecursive ignoreCase [] isFound s = (Return isFound, s)"
| "readdir_loop e path filename isRecursive ignoreCase (Dirent fileOrDirName ty rp d # ents) isFound s =
     (if fileOrDirName = ''.'' \<or> fileOrDirName = ''..'' then
        readdir_loop e path filename isRecursive ignoreCase ents isFound s
      else if ty = DT_DIR \<and> isRecursive then
        (if isFound then readdir_loop e path filename isRecursive ignoreCase ents True s
         else
           (case searchForFile e (path @ ''/'' @ fileOrDirName) filename isRecursive ignoreCase d s of
              (Exit status, s') \<Rightarrow> (Exit status, s')
            | (Return b, s') \<Rightarrow> readdir_loop e path filename isRecursive ignoreCase ents b s'))
      else if ty = DT_REG \<and> isEqualString fileOrDirName filename ignoreCase then
        (case rp of
           None \<Rightarrow> readdir_loop e path filename isRecursive ignoreCase ents isFound s
         | Some absPath \<Rightarrow>
             (case write_pipe e (found_line (getpid e) filename absPath) s of
                (Some errno, s') \<Rightarrow> (Exit EXIT_FAILURE, perror ''Error writing to pipe'' errno s')
              | (None, s') \<Rightarrow> readdir_loop e path filename isRecursive ignoreCase ents True s'))
      else readdir_loop e path filename isRecursive ignoreCase ents isFound s)"

subsection \<open>A child process\<close>

text \<open>
  The child's branch of \<^verbatim>\<open>main\<close> (lines 150 to 172): the search, the line written
  when it returns false, and the exit status. The child starts with nothing done.
\<close>

definition child :: "env \<Rightarrow> string \<Rightarrow> string \<Rightarrow> bool \<Rightarrow> bool \<Rightarrow> dir \<Rightarrow> proc \<Rightarrow> nat \<times> proc" where
  "child e searchpath arg isRecursive ignoreCase root s =
     (case searchForFile e searchpath arg isRecursive ignoreCase root s of
        (Exit status, s') \<Rightarrow> (status, s')
      | (Return fileFound, s') \<Rightarrow>
          (if fileFound then (EXIT_SUCCESS, s')
           else
             (case write_pipe e (notfound_line (getpid e) arg searchpath) s' of
                (Some errno, s'') \<Rightarrow> (EXIT_FAILURE, perror ''Error writing to pipe'' errno s'')
              | (None, s'') \<Rightarrow> (EXIT_SUCCESS, s''))))"

subsection \<open>The parent process\<close>

text \<open>
  What the system answers to the parent. \<^verbatim>\<open>getopt\<close> is the C library's: the model
  takes the values its successive calls return before \<open>-1\<close>, and \<^verbatim>\<open>optind\<close> as it
  stands then (what \<^verbatim>\<open>getopt\<close> itself prints is left out). \<^verbatim>\<open>pipe\<close> fails with
  an errno or succeeds. \<^verbatim>\<open>fork\<close>, called for \<^verbatim>\<open>argv[i]\<close>, fails with an errno (a
  negative return) or returns the child's process id, which is positive; the child of
  \<^verbatim>\<open>argv[i]\<close> has its own \<^verbatim>\<open>write\<close> outcomes. \<open>fs_at\<close> is the tree
  \<^verbatim>\<open>opendir\<close> shows at a path.
\<close>

datatype fork_result = ForkFails nat | Forked nat

record sys =
  getopt_rets :: "char list"
  optind :: nat
  pipe_err :: "nat option"
  fork_ret :: "nat \<Rightarrow> fork_result"
  child_write_err :: "nat \<Rightarrow> nat \<Rightarrow> nat option"
  fs_at :: "string \<Rightarrow> dir"

text \<open>One spawned child: its process id, its file name, its exit status, what it did.\<close>

record task =
  task_pid :: nat
  task_arg :: string
  task_status :: nat
  task_proc :: proc

text \<open>
  The outcome of a run on the parent's side: its exit status, its standard error,
  whether the pipe was made, and the children it forked, in fork order. The parent
  copies the bytes it reads from the pipe to standard output as they arrive (lines 178
  to 192); the order of arrival across children is the scheduler's, so the model keeps
  what each child wrote to the pipe with the child.
\<close>

record run =
  exit_status :: nat
  parent_err :: "err_line list"
  pipe_made :: bool
  tasks :: "task list"

definition usage_line :: "string \<Rightarrow> string" where
  "usage_line argv0 =
     ''Usage: '' @ argv0 @ '' [-R] [-i] searchpath filename1 [filename2] ''
       @ [CHR 0xE2, CHR 0x80, CHR 0xA6] @ ''[filenameN]'' @ [CHR 0x0A]"

text \<open>The \<^verbatim>\<open>getopt\<close> loop (lines 104 to 116): the two flags, or the usage exit.\<close>

fun getopt_loop :: "char list \<Rightarrow> bool \<Rightarrow> bool \<Rightarrow> (bool \<times> bool) res" where
  "getopt_loop [] isRecursive ignoreCase = Return (isRecursive, ignoreCase)"
| "getopt_loop (opt # opts) isRecursive ignoreCase =
     (if opt = CHR ''R'' then getopt_loop opts True ignoreCase
      else if opt = CHR ''i'' then getopt_loop opts isRecursive True
      else Exit EXIT_FAILURE)"

text \<open>
  The child forked for \<^verbatim>\<open>argv[i]\<close>, run to its exit: it searches the tree
  \<^verbatim>\<open>opendir\<close> shows at the search path.
\<close>

definition run_child :: "sys \<Rightarrow> string \<Rightarrow> bool \<Rightarrow> bool \<Rightarrow> nat \<Rightarrow> string \<Rightarrow> nat \<Rightarrow> task" where
  "run_child y searchpath isRecursive ignoreCase i arg pid =
     (case child \<lparr>getpid = pid, write_err = child_write_err y i\<rparr>
             searchpath arg isRecursive ignoreCase (fs_at y searchpath) proc0 of
        (status, s) \<Rightarrow> \<lparr>task_pid = pid, task_arg = arg, task_status = status, task_proc = s\<rparr>)"

text \<open>
  The fork loop (lines 137 to 173) from index \<open>i\<close> over the remaining arguments: a
  failed \<^verbatim>\<open>fork\<close> ends the parent, the children forked before it stay. After the
  loop the parent drains the pipe, waits for the children and returns 0.
\<close>

fun fork_loop ::
  "sys \<Rightarrow> string \<Rightarrow> bool \<Rightarrow> bool \<Rightarrow> nat \<Rightarrow> string list \<Rightarrow> task list \<Rightarrow> nat \<times> err_line list \<times> task list"
where
  "fork_loop y searchpath isRecursive ignoreCase i [] childProcesses = (0, [], childProcesses)"
| "fork_loop y searchpath isRecursive ignoreCase i (arg # rest) childProcesses =
     (case fork_ret y i of
        ForkFails errno \<Rightarrow> (EXIT_FAILURE, [Perror ''Child process error!'' errno], childProcesses)
      | Forked pid \<Rightarrow>
          fork_loop y searchpath isRecursive ignoreCase (Suc i) rest
            (childProcesses @ [run_child y searchpath isRecursive ignoreCase i arg pid]))"

text \<open>
  \<^verbatim>\<open>main\<close> (lines 97 to 197) on \<^verbatim>\<open>argv\<close>, with \<^verbatim>\<open>argc\<close> its length (at least 1: the
  program's name). The comparison of line 119 is on \<^verbatim>\<open>int\<close>. Past it
  \<^verbatim>\<open>optind < argc - 1\<close>, so \<^verbatim>\<open>argv[optind]\<close> is an argument.
\<close>

definition main :: "sys \<Rightarrow> string list \<Rightarrow> run" where
  "main y argv =
     (case getopt_loop (getopt_rets y) False False of
        Exit status \<Rightarrow>
          \<lparr>exit_status = status, parent_err = [Cerr (usage_line (hd argv))],
           pipe_made = False, tasks = []\<rparr>
      | Return (isRecursive, ignoreCase) \<Rightarrow>
          (if int (length argv) - 1 \<le> int (optind y) then
             \<lparr>exit_status = EXIT_FAILURE,
              parent_err = [Cerr (''Expected arguments after options'' @ [CHR 0x0A])],
              pipe_made = False, tasks = []\<rparr>
           else
             (case pipe_err y of
                Some errno \<Rightarrow>
                  \<lparr>exit_status = EXIT_FAILURE, parent_err = [Perror ''Pipe error!'' errno],
                   pipe_made = False, tasks = []\<rparr>
              | None \<Rightarrow>
                  (case fork_loop y (argv ! optind y) isRecursive ignoreCase (Suc (optind y))
                          (drop (Suc (optind y)) argv) [] of
                     (status, err, ts) \<Rightarrow>
                       \<lparr>exit_status = status, parent_err = err, pipe_made = True, tasks = ts\<rparr>))))"

subsection \<open>Example file systems\<close>

text \<open>
  A process with id 4242 whose writes are all accepted. The walk never looks behind a
  pseudo entry, so the examples leave it blank; \<open>regular\<close> is a regular file with its
  resolved path (\<^verbatim>\<open>opendir\<close> on it would fail with \<^verbatim>\<open>ENOTDIR\<close>, 20).
\<close>

definition ex_env :: env where
  "ex_env = \<lparr>getpid = 4242, write_err = (\<lambda>n. None)\<rparr>"

definition pseudo :: "string \<Rightarrow> dirent" where
  "pseudo name = Dirent name DT_DIR None (OpenFails 0)"

definition regular :: "string \<Rightarrow> string \<Rightarrow> dirent" where
  "regular name absPath = Dirent name DT_REG (Some absPath) (OpenFails 20)"

text \<open>
  The scenario of the specification: \<^verbatim>\<open>/tmp/t\<close> holds \<^verbatim>\<open>a.txt\<close> and the directory
  \<^verbatim>\<open>sub\<close>, which holds another \<^verbatim>\<open>a.txt\<close>. \<^verbatim>\<open>readdir\<close> lists the file before
  the directory in \<open>ex_file_first\<close> and after it in \<open>ex_dir_first\<close>.
\<close>

definition ex_sub :: dirent where
  "ex_sub = Dirent ''sub'' DT_DIR (Some ''/tmp/t/sub'')
     (Entries [pseudo ''.'', pseudo ''..'', regular ''a.txt'' ''/tmp/t/sub/a.txt''])"

definition ex_file_first :: dir where
  "ex_file_first =
     Entries [pseudo ''.'', pseudo ''..'', regular ''a.txt'' ''/tmp/t/a.txt'', ex_sub]"

definition ex_dir_first :: dir where
  "ex_dir_first =
     Entries [pseudo ''.'', pseudo ''..'', ex_sub, regular ''a.txt'' ''/tmp/t/a.txt'']"

text \<open>
  \<^verbatim>\<open>/tmp/r\<close> holds two directories, each with a file \<^verbatim>\<open>a.txt\<close>, and no regular
  file of its own.
\<close>

definition ex_two_dirs :: dir where
  "ex_two_dirs =
     Entries [pseudo ''.'', pseudo ''..'',
       Dirent ''sub1'' DT_DIR (Some ''/tmp/r/sub1'')
         (Entries [pseudo ''.'', pseudo ''..'', regular ''a.txt'' ''/tmp/r/sub1/a.txt'']),
       Dirent ''sub2'' DT_DIR (Some ''/tmp/r/sub2'')
         (Entries [pseudo ''.'', pseudo ''..'', regular ''a.txt'' ''/tmp/r/sub2/a.txt''])]"

text \<open>
  \<^verbatim>\<open>/tmp/l\<close> holds a directory the process may not open, listed first, and a
  directory with a file \<^verbatim>\<open>a.txt\<close>.
\<close>

definition ex_locked :: dir where
  "ex_locked =
     Entries [pseudo ''.'', pseudo ''..'',
       Dirent ''locked'' DT_DIR (Some ''/tmp/l/locked'') (OpenFails EACCES),
       Dirent ''open'' DT_DIR (Some ''/tmp/l/open'')
         (Entries [pseudo ''.'', pseudo ''..'', regular ''a.txt'' ''/tmp/l/open/a.txt''])]"

text \<open>
  A run \<^verbatim>\<open>myfind -R /tmp/t a.txt b.txt\<close>: \<^verbatim>\<open>getopt\<close> returns \<^verbatim>\<open>R\<close> once and
  leaves \<^verbatim>\<open>optind\<close> at 2, \<^verbatim>\<open>pipe\<close> and every \<^verbatim>\<open>fork\<close> succeed, the children
  get the process ids 4242 and 4243, and every write is accepted. Any path other than
  \<^verbatim>\<open>/tmp/t\<close> does not exist (\<^verbatim>\<open>ENOENT\<close>, 2).
\<close>

definition ex_sys :: sys where
  "ex_sys =
     \<lparr>getopt_rets = ''R'', optind = 2, pipe_err = None,
      fork_ret = (\<lambda>i. Forked (4239 + i)),
      child_write_err = (\<lambda>i n. None),
      fs_at = (\<lambda>path. if path = ''/tmp/t'' then ex_dir_first else OpenFails 2)\<rparr>"



subsection \<open>Notions of the specification\<close>

text \<open>
  In the specification's words, not the code's: the locale-independent case fold, which
  takes each of the 26 ASCII capital letters to its small letter and keeps every other
  byte. It is given by the table of the letters, not by arithmetic on byte values.
\<close>

definition ascii_fold :: "char \<Rightarrow> char" where
  "ascii_fold c =
     (case map_of (zip ''ABCDEFGHIJKLMNOPQRSTUVWXYZ'' ''abcdefghijklmnopqrstuvwxyz'') c of
        Some l \<Rightarrow> l
      | None \<Rightarrow> c)"

text \<open>
  In the specification's words, not the code's: a regular file whose name matches the
  query under the case policy exists within the traversal scope, which is the entries of
  the root other than the pseudo entries and, for a recursive search, the entries of
  every directory below it that can be opened.
\<close>

fun match_in_scope :: "string \<Rightarrow> bool \<Rightarrow> bool \<Rightarrow> dir \<Rightarrow> bool"
and match_in_entries :: "string \<Rightarrow> bool \<Rightarrow> bool \<Rightarrow> dirent list \<Rightarrow> bool"
where
  "match_in_scope filename recursive ignoreCase (OpenFails errno) = False"
| "match_in_scope filename recursive ignoreCase (Entries ents) =
     match_in_entries filename recursive ignoreCase ents"
| "match_in_entries filename recursive ignoreCase [] = False"
| "match_in_entries filename recursive ignoreCase (Dirent name ty rp d # ents) =
     ((name \<noteq> ''.'' \<and> name \<noteq> ''..'' \<and>
       ((ty = DT_REG \<and> isEqualString name filename ignoreCase) \<or>
        (ty = DT_DIR \<and> recursive \<and> match_in_scope filename recursive ignoreCase d))) \<or>
      match_in_entries filename recursive ignoreCase ents)"

text \<open>
  What a call of the walk that started in state \<open>s\<close> with the flag \<open>isFound\<close> has
  done when it ends in \<open>out\<close>: it appended Found lines of its task to the pipe, only
  if \<open>m\<close> holds; a returned flag is the old one or says that a line was appended; an
  exit has the failure status, and follows a refused write.
\<close>

definition walk_inv :: "env \<Rightarrow> string \<Rightarrow> bool \<Rightarrow> bool \<Rightarrow> proc \<Rightarrow> bool res \<times> proc \<Rightarrow> bool" where
  "walk_inv e filename m isFound s out =
     (\<exists>ps. pipe_out (snd out) = pipe_out s @ map (found_line (getpid e) filename) ps \<and>
        (ps = [] \<or> m) \<and>
        (case fst out of
           Return b \<Rightarrow> b = (isFound \<or> ps \<noteq> [])
         | Exit status \<Rightarrow>
             status = EXIT_FAILURE \<and> m \<and> write_err e (length (pipe_out (snd out))) \<noteq> None))"

section \<open>Properties\<close>

subsection \<open>Comparison of names\<close>

lemma of_char_zero: "of_char d = (0::nat) \<longleftrightarrow> d = CHR 0x00"
proof -
  have "of_char d = (0::nat) \<longleftrightarrow> of_char d = (of_char (CHR 0x00) :: nat)" by simp
  then show ?thesis by (simp only: of_char_eq_iff)
qed

lemma tolower_nul: "tolower c = CHR 0x00 \<longleftrightarrow> c = CHR 0x00"
proof -
  have "of_char (tolower c) = (0::nat) \<longleftrightarrow> of_char c = (0::nat)"
    by (simp add: tolower_def Let_def)
  then show ?thesis by (simp only: of_char_zero)
qed

lemma strcasecmp_zero:
  "CHR 0x00 \<notin> set xs \<Longrightarrow> CHR 0x00 \<notin> set ys \<Longrightarrow>
   strcasecmp xs ys = 0 \<longleftrightarrow> map tolower xs = map tolower ys"
proof (induction xs ys rule: strcasecmp.induct)
  case 1
  then show ?case by simp
next
  case (2 y ys)
  then have "y \<noteq> CHR 0x00" by auto
  then have "of_char (tolower y) \<noteq> (0::nat)" by (simp only: of_char_zero tolower_nul) simp
  then show ?case by simp
next
  case (3 x xs)
  then have "x \<noteq> CHR 0x00" by auto
  then have "of_char (tolower x) \<noteq> (0::nat)" by (simp only: of_char_zero tolower_nul) simp
  then show ?case by simp
next
  case (4 x xs y ys)
  then show ?case by simp
qed

lemma c_str_no_nul: "CHR 0x00 \<notin> set (c_str s)"
  unfolding c_str_def by (auto dest: set_takeWhileD)

lemma tolower_ascii_fold: "tolower c = ascii_fold c"
  by (cases c) (simp add: tolower_def ascii_fold_def Let_def char_of_def drop_bit_eq_div bit_0)

lemma c_str_takeWhile: "c_str s = takeWhile (\<lambda>c. c \<noteq> CHR 0x00) s"
  by (simp add: c_str_def)

lemma c_str_id: "CHR 0x00 \<notin> set s \<Longrightarrow> c_str s = s"
  unfolding c_str_def by (rule takeWhile_eq_all_conv [THEN iffD2]) auto

text \<open>
  Claim C4. With case-insensitive mode off a name matches the query exactly when the two
  are equal byte for byte. With it on, a name matches exactly when the two agree, up to
  their first NUL, after the fold of the 26 ASCII letters, whatever the locale: for names
  without NUL, when their folds are equal. \<^verbatim>\<open>Report.TXT\<close> matches the query
  \<^verbatim>\<open>report.txt\<close> exactly when the mode is on, and a name equal to the query matches
  in both modes. With the mode on a proper prefix, another letter, another punctuation
  mark, the bytes next to the letters (\<^verbatim>\<open>@\<close> and the backquote, the two brackets) and
  bytes above 127 do not match.
\<close>

theorem isEqualString_case_policy:
  "(isEqualString name query False \<longleftrightarrow> name = query) \<and>
   (isEqualString name query True \<longleftrightarrow> map tolower (c_str name) = map tolower (c_str query)) \<and>
   (isEqualString name query True \<longleftrightarrow>
      map ascii_fold (takeWhile (\<lambda>c. c \<noteq> CHR 0x00) name) =
      map ascii_fold (takeWhile (\<lambda>c. c \<noteq> CHR 0x00) query)) \<and>
   (CHR 0x00 \<notin> set name \<and> CHR 0x00 \<notin> set query \<longrightarrow>
      (isEqualString name query True \<longleftrightarrow> map ascii_fold name = map ascii_fold query)) \<and>
   (isEqualString ''Report.TXT'' ''report.txt'' ignoreCase \<longleftrightarrow> ignoreCase) \<and>
   isEqualString name name ignoreCase \<and>
   isEqualString ''REPORT.TXT'' ''report.txt'' True \<and>
   \<not> isEqualString ''report.txt'' ''report.tx'' True \<and>
   \<not> isEqualString ''report.tx'' ''report.txt'' True \<and>
   \<not> isEqualString ''report.txt'' ''resort.txt'' True \<and>
   \<not> isEqualString ''report.txt'' ''report_txt'' True \<and>
   \<not> isEqualString [CHR 0x40] [CHR 0x60] True \<and>
   \<not> isEqualString [CHR 0x5B] [CHR 0x7B] True \<and>
   \<not> isEqualString [CHR 0xC4] [CHR 0xE4] True \<and>
   \<not> isEqualString '''' ''a'' True"
proof -
  have a: "isEqualString name query False \<longleftrightarrow> name = query"
    by (simp add: isEqualString_def)
  have b: "isEqualString name query True \<longleftrightarrow> map tolower (c_str name) = map tolower (c_str query)"
    by (simp add: isEqualString_def strcasecmp_zero c_str_no_nul)
  have fold: "map tolower = map ascii_fold"
    by (rule arg_cong [of _ _ map]) (rule ext, rule tolower_ascii_fold)
  have b': "isEqualString name query True \<longleftrightarrow>
      map ascii_fold (takeWhile (\<lambda>c. c \<noteq> CHR 0x00) name) =
      map ascii_fold (takeWhile (\<lambda>c. c \<noteq> CHR 0x00) query)"
    unfolding b fold c_str_takeWhile ..
  have b'': "CHR 0x00 \<notin> set name \<and> CHR 0x00 \<notin> set query \<longrightarrow>
      (isEqualString name query True \<longleftrightarrow> map ascii_fold name = map ascii_fold query)"
    unfolding b fold by (simp add: c_str_id)
  have "isEqualString ''Report.TXT'' ''report.txt'' True" by code_simp
  moreover have "\<not> isEqualString ''Report.TXT'' ''report.txt'' False" by code_simp
  ultimately have c: "isEqualString ''Report.TXT'' ''report.txt'' ignoreCase \<longleftrightarrow> ignoreCase"
    by (cases ignoreCase) simp_all
  have d: "isEqualString name name ignoreCase"
    by (simp add: isEqualString_def strcasecmp_zero c_str_no_nul)
  have e: "isEqualString ''REPORT.TXT'' ''report.txt'' True"
    "\<not> isEqualString ''report.txt'' ''report.tx'' True"
    "\<not> isEqualString ''report.tx'' ''report.txt'' True"
    "\<not> isEqualString ''report.txt'' ''resort.txt'' True"
    "\<not> isEqualString ''report.txt'' ''report_txt'' True"
    "\<not> isEqualString [CHR 0x40] [CHR 0x60] True"
    "\<not> isEqualString [CHR 0x5B] [CHR 0x7B] True"
    "\<not> isEqualString [CHR 0xC4] [CHR 0xE4] True"
    "\<not> isEqualString '''' ''a'' True"
    by code_simp+
  from a b b' b'' c d e show ?thesis by (intro conjI)
qed

theorem isEqualString_case_policy_witness:
  "CHR 0x00 \<notin> set ''Report.TXT'' \<and> CHR 0x00 \<notin> set ''report.txt'' \<and>
   map ascii_fold ''Report.TXT'' = map ascii_fold ''report.txt'' \<and>
   map ascii_fold ''Report.TXT'' = ''report.txt'' \<and>
   isEqualString ''Report.TXT'' ''report.txt'' True"
proof -
  have h: "CHR 0x00 \<notin> set ''Report.TXT'' \<and> CHR 0x00 \<notin> set ''report.txt''" by simp
  have f: "map ascii_fold ''Report.TXT'' = ''report.txt''" "map ascii_fold ''report.txt'' = ''report.txt''"
    by (simp_all add: ascii_fold_def)
  from isEqualString_case_policy [of "''Report.TXT''" "''report.txt''"] h f
  show ?thesis by (simp only: simp_thms)
qed

subsection \<open>What the walk writes\<close>

lemma pipe_out_handleError [simp]:
  "pipe_out (handleErrorOpeningDir path errno s) = pipe_out s"
  by (simp add: handleErrorOpeningDir_def perror_def)

lemma pipe_out_perror [simp]: "pipe_out (perror m n s) = pipe_out s"
  by (simp add: perror_def)

lemma walk_inv_step:
  assumes "walk_inv e fn m' b s1 out"
    and "pipe_out s1 = pipe_out s @ map (found_line (getpid e) fn) qs"
    and "b = (isFound \<or> qs \<noteq> [])"
    and "qs = [] \<or> m"
    and "m' \<Longrightarrow> m"
  shows "walk_inv e fn m isFound s out"
proof -
  from assms(1) obtain ps where
    p: "pipe_out (snd out) = pipe_out s1 @ map (found_line (getpid e) fn) ps"
    and m: "ps = [] \<or> m'"
    and r: "case fst out of Return c \<Rightarrow> c = (b \<or> ps \<noteq> [])
            | Exit c \<Rightarrow> c = EXIT_FAILURE \<and> m' \<and> write_err e (length (pipe_out (snd out))) \<noteq> None"
    unfolding walk_inv_def by blast
  have "pipe_out (snd out) = pipe_out s @ map (found_line (getpid e) fn) (qs @ ps)"
    using p assms(2) by simp
  moreover have "qs @ ps = [] \<or> m"
    using m assms(4,5) by auto
  moreover have "case fst out of Return c \<Rightarrow> c = (isFound \<or> qs @ ps \<noteq> [])
            | Exit c \<Rightarrow> c = EXIT_FAILURE \<and> m \<and> write_err e (length (pipe_out (snd out))) \<noteq> None"
    using r assms(3,5) by (auto split: res.splits)
  ultimately show ?thesis unfolding walk_inv_def by blast
qed

lemma walk_inv_same:
  assumes "walk_inv e fn m' isFound s out" and "m' \<Longrightarrow> m"
  shows "walk_inv e fn m isFound s out"
proof (rule walk_inv_step [where qs = "[]", OF assms(1)])
  show "pipe_out s = pipe_out s @ map (found_line (getpid e) fn) []" by simp
  show "isFound = (isFound \<or> [] \<noteq> ([] :: string list))" by simp
  show "[] = ([] :: string list) \<or> m" by simp
  show "m' \<Longrightarrow> m" by (rule assms(2))
qed

lemma walk_inv_walk:
  "walk_inv e fn (match_in_scope fn r ic d) False s (searchForFile e path fn r ic d s)"
  "walk_inv e fn (match_in_entries fn r ic ents) isFound s (readdir_loop e path fn r ic ents isFound s)"
proof (induction e path fn r ic d s and e path fn r ic ents isFound s rule: searchForFile_readdir_loop.induct)
  case (1 e path filename isRecursive ignoreCase errno s)
  then show ?case by (simp add: walk_inv_def)
next
  case (2 e path filename isRecursive ignoreCase ents s)
  then show ?case by (simp add: walk_inv_def)
next
  case (3 e path filename isRecursive ignoreCase isFound s)
  then show ?case by (simp add: walk_inv_def)
next
  case (4 e path filename isRecursive ignoreCase fileOrDirName ty rp d ents isFound s)
  let ?loop = "readdir_loop e path filename isRecursive ignoreCase ents"
  let ?L = "readdir_loop e path filename isRecursive ignoreCase (Dirent fileOrDirName ty rp d # ents) isFound s"
  let ?m = "match_in_entries filename isRecursive ignoreCase ents"
  let ?M = "match_in_entries filename isRecursive ignoreCase (Dirent fileOrDirName ty rp d # ents)"
  have mono: "?m \<Longrightarrow> ?M" by simp
  consider
      (pseudo) "fileOrDirName = ''.'' \<or> fileOrDirName = ''..''"
    | (dir) "\<not> (fileOrDirName = ''.'' \<or> fileOrDirName = ''..'')" "ty = DT_DIR \<and> isRecursive"
    | (reg) "\<not> (fileOrDirName = ''.'' \<or> fileOrDirName = ''..'')" "\<not> (ty = DT_DIR \<and> isRecursive)"
        "ty = DT_REG \<and> isEqualString fileOrDirName filename ignoreCase"
    | (other) "\<not> (fileOrDirName = ''.'' \<or> fileOrDirName = ''..'')" "\<not> (ty = DT_DIR \<and> isRecursive)"
        "\<not> (ty = DT_REG \<and> isEqualString fileOrDirName filename ignoreCase)"
    by blast
  then show ?case
  proof cases
    case pseudo
    then have eq: "?L = ?loop isFound s" by auto
    show ?thesis unfolding eq by (rule walk_inv_same [OF "4.IH"(1) [OF pseudo] mono])
  next
    case dir
    show ?thesis
    proof (cases isFound)
      case True
      then have eq: "?L = ?loop isFound s" using dir by simp
      have "walk_inv e filename ?m isFound s (?loop isFound s)"
        using "4.IH"(2) [OF dir True] True by simp
      then show ?thesis unfolding eq by (rule walk_inv_same [OF _ mono])
    next
      case False
      let ?sub = "searchForFile e (path @ ''/'' @ fileOrDirName) filename isRecursive ignoreCase d s"
      let ?md = "match_in_scope filename isRecursive ignoreCase d"
      obtain res s1 where sub: "(res, s1) = ?sub"
        by (cases ?sub) simp
      have sh1: "walk_inv e filename ?md False s (res, s1)"
        using "4.IH"(3) [OF dir False] sub by simp
      have md: "?md \<Longrightarrow> ?M" using dir by simp
      show ?thesis
      proof (cases res)
        case (Exit c)
        then have eq: "?L = (res, s1)" using dir False sub [symmetric] by simp
        show ?thesis unfolding eq using walk_inv_same [OF sh1 md] False by simp
      next
        case (Return b)
        then have eq: "?L = ?loop b s1" using dir False sub [symmetric] by simp
        have sh2: "walk_inv e filename ?m b s1 (?loop b s1)"
          by (rule "4.IH"(4) [OF dir False sub Return])
        from sh1 Return obtain qs where
          q: "pipe_out s1 = pipe_out s @ map (found_line (getpid e) filename) qs" "b = (qs \<noteq> [])" "qs = [] \<or> ?md"
          unfolding walk_inv_def by auto
        show ?thesis unfolding eq
        proof (rule walk_inv_step [OF sh2 q(1)])
          show "b = (isFound \<or> qs \<noteq> [])" using q(2) False by simp
          show "qs = [] \<or> ?M" using q(3) md by blast
          show "?m \<Longrightarrow> ?M" by (rule mono)
        qed
      qed
    qed
  next
    case reg
    have mr: "?M" using reg by simp
    show ?thesis
    proof (cases rp)
      case None
      then have eq: "?L = ?loop isFound s" using reg by simp
      show ?thesis unfolding eq by (rule walk_inv_same [OF "4.IH"(5) [OF reg None] mono])
    next
      case (Some absPath)
      show ?thesis
      proof (cases "write_err e (length (pipe_out s))")
        case (Some errno)
        then have eq: "?L = (Exit EXIT_FAILURE, perror ''Error writing to pipe'' errno s)"
          using reg \<open>rp = Some absPath\<close> by (simp add: write_pipe_def)
        show ?thesis unfolding eq using Some mr by (simp add: walk_inv_def)
      next
        case None
        let ?s1 = "s\<lparr>pipe_out := pipe_out s @ [found_line (getpid e) filename absPath]\<rparr>"
        have w: "(None, ?s1) = write_pipe e (found_line (getpid e) filename absPath) s"
          using None by (simp add: write_pipe_def)
        then have eq: "?L = ?loop True ?s1"
          using reg \<open>rp = Some absPath\<close> by (simp add: w [symmetric])
        have sh: "walk_inv e filename ?m True ?s1 (?loop True ?s1)"
          by (rule "4.IH"(6) [OF reg \<open>rp = Some absPath\<close> w refl])
        have p: "pipe_out ?s1 = pipe_out s @ map (found_line (getpid e) filename) [absPath]" by simp
        show ?thesis unfolding eq
        proof (rule walk_inv_step [OF sh p])
          show "True = (isFound \<or> [absPath] \<noteq> [])" by simp
          show "[absPath] = [] \<or> ?M" using mr by blast
          show "?m \<Longrightarrow> ?M" by (rule mono)
        qed
      qed
    qed
  next
    case other
    then have eq: "?L = ?loop isFound s" by auto
    show ?thesis unfolding eq by (rule walk_inv_same [OF "4.IH"(7) [OF other] mono])
  qed
qed

lemma search_cases:
  obtains
    (Returns) fileFound s1 ps where
      "searchForFile e path filename isRecursive ignoreCase d s = (Return fileFound, s1)"
      "pipe_out s1 = pipe_out s @ map (found_line (getpid e) filename) ps"
      "fileFound \<longleftrightarrow> ps \<noteq> []"
      "ps = [] \<or> match_in_scope filename isRecursive ignoreCase d"
  | (Exits) s1 ps where
      "searchForFile e path filename isRecursive ignoreCase d s = (Exit EXIT_FAILURE, s1)"
      "pipe_out s1 = pipe_out s @ map (found_line (getpid e) filename) ps"
      "match_in_scope filename isRecursive ignoreCase d"
      "write_err e (length (pipe_out s1)) \<noteq> None"
proof -
  let ?srch = "searchForFile e path filename isRecursive ignoreCase d s"
  obtain res s1 where srch: "?srch = (res, s1)" by (cases ?srch)
  have "walk_inv e filename (match_in_scope filename isRecursive ignoreCase d) False s (res, s1)"
    using walk_inv_walk(1) [of e filename isRecursive ignoreCase d s path] srch by simp
  then obtain ps where
    ps: "pipe_out s1 = pipe_out s @ map (found_line (getpid e) filename) ps"
        "ps = [] \<or> match_in_scope filename isRecursive ignoreCase d"
    and r: "case res of Return b \<Rightarrow> b = (False \<or> ps \<noteq> [])
        | Exit status \<Rightarrow> status = EXIT_FAILURE \<and> match_in_scope filename isRecursive ignoreCase d \<and>
            write_err e (length (pipe_out s1)) \<noteq> None"
    unfolding walk_inv_def fst_conv snd_conv by blast
  show thesis
  proof (cases res)
    case (Return b)
    with r ps srch show thesis by (intro Returns [of b s1 ps]) simp_all
  next
    case (Exit status)
    with r ps srch show thesis by (intro Exits [of s1 ps]) simp_all
  qed
qed

lemma child_after_return:
  assumes "searchForFile e searchpath arg isRecursive ignoreCase root s = (Return fileFound, s1)"
  shows "child e searchpath arg isRecursive ignoreCase root s =
     (if fileFound then (EXIT_SUCCESS, s1)
      else (case write_err e (length (pipe_out s1)) of
              None \<Rightarrow> (EXIT_SUCCESS, s1\<lparr>pipe_out := pipe_out s1 @ [notfound_line (getpid e) arg searchpath]\<rparr>)
            | Some errno \<Rightarrow> (EXIT_FAILURE, perror ''Error writing to pipe'' errno s1)))"
  using assms by (simp add: child_def write_pipe_def split: option.splits)



subsection \<open>One task\<close>

lemma to_string_4242: "to_string 4242 = ''4242''"
  by (simp add: to_string.simps digit_char_def)

lemmas ex_defs = ex_env_def pseudo_def regular_def ex_sub_def ex_file_first_def ex_dir_first_def
  ex_two_dirs_def ex_locked_def EACCES_def
  proc0_def child_def write_pipe_def found_line_def notfound_line_def isEqualString_def
  handleErrorOpeningDir_def perror_def




text \<open>
  Claim C3. When no regular file matching the file name under the case policy exists
  within the traversal scope (the entries of the root, and for a recursive search those
  of the directories below it), and the pipe accepts the write, the task ends normally
  and what it wrote to the pipe is exactly one line, the NotFound line of the file name
  and the root.
\<close>

theorem no_match_one_notfound_line:
  assumes "\<not> match_in_scope filename isRecursive ignoreCase root"
    and "write_err e (length (pipe_out s)) = None"
  shows "fst (child e searchpath filename isRecursive ignoreCase root s) = EXIT_SUCCESS \<and>
         pipe_out (snd (child e searchpath filename isRecursive ignoreCase root s)) =
           pipe_out s @ [notfound_line (getpid e) filename searchpath]"
proof (cases rule: search_cases [of e searchpath filename isRecursive ignoreCase root s])
  case (Exits s1 ps)
  with assms(1) show ?thesis by simp
next
  case (Returns fileFound s1 ps)
  with assms(1) have "ps = []" "\<not> fileFound" by auto
  with Returns(2) assms(2) have "write_err e (length (pipe_out s1)) = None" "pipe_out s1 = pipe_out s"
    by simp_all
  with child_after_return [OF Returns(1)] \<open>\<not> fileFound\<close> show ?thesis by simp
qed

theorem no_match_one_notfound_line_witness:
  "\<not> match_in_scope ''b.txt'' True False ex_file_first \<and>
   write_err ex_env (length (pipe_out proc0)) = None \<and>
   fst (child ex_env ''/tmp/t'' ''b.txt'' True False ex_file_first proc0) = EXIT_SUCCESS \<and>
   pipe_out (snd (child ex_env ''/tmp/t'' ''b.txt'' True False ex_file_first proc0)) =
     [''4242: b.txt: File not found in /tmp/t'' @ [CHR 0x0A]]"
proof -
  have h1: "\<not> match_in_scope ''b.txt'' True False ex_file_first"
    by (simp add: ex_defs)
  have h2: "write_err ex_env (length (pipe_out proc0)) = None"
    by (simp add: ex_defs)
  from no_match_one_notfound_line [OF h1 h2, of "''/tmp/t''"] h1 h2 show ?thesis
    by (simp add: ex_defs to_string_4242)
qed

subsection \<open>Directories and the found flag\<close>

text \<open>
  Claim C1 does not hold of the code. In a recursive search a directory entry read while
  the flag \<^verbatim>\<open>isFound\<close> is set is passed over without being opened, because the
  \<^verbatim>\<open>||\<close> of line 68 does not evaluate the recursive call then. So for the root
  \<^verbatim>\<open>/tmp/t\<close> with \<^verbatim>\<open>a.txt\<close> and \<^verbatim>\<open>sub/a.txt\<close> the task writes one Found line
  and never opens \<^verbatim>\<open>sub\<close> when \<^verbatim>\<open>readdir\<close> lists the file first, and two Found
  lines when it lists the directory first.
\<close>

theorem directories_after_a_match_skipped:
  "readdir_loop e path filename True ignoreCase (Dirent name DT_DIR rp d # ents) True s =
     readdir_loop e path filename True ignoreCase ents True s \<and>
   child ex_env ''/tmp/t'' ''a.txt'' True False ex_file_first proc0 =
     (EXIT_SUCCESS,
      \<lparr>pipe_out = [''4242: a.txt: /tmp/t/a.txt'' @ [CHR 0x0A]], err_out = [],
       opened = [''/tmp/t'']\<rparr>) \<and>
   child ex_env ''/tmp/t'' ''a.txt'' True False ex_dir_first proc0 =
     (EXIT_SUCCESS,
      \<lparr>pipe_out = [''4242: a.txt: /tmp/t/sub/a.txt'' @ [CHR 0x0A],
                   ''4242: a.txt: /tmp/t/a.txt'' @ [CHR 0x0A]], err_out = [],
       opened = [''/tmp/t'', ''/tmp/t/sub'']\<rparr>)"
proof -
  have "readdir_loop e path filename True ignoreCase (Dirent name DT_DIR rp d # ents) True s =
     readdir_loop e path filename True ignoreCase ents True s"
    by simp
  moreover have "child ex_env ''/tmp/t'' ''a.txt'' True False ex_file_first proc0 =
     (EXIT_SUCCESS,
      \<lparr>pipe_out = [''4242: a.txt: /tmp/t/a.txt'' @ [CHR 0x0A]], err_out = [],
       opened = [''/tmp/t'']\<rparr>)"
    by (simp add: ex_defs to_string_4242)
  moreover have "child ex_env ''/tmp/t'' ''a.txt'' True False ex_dir_first proc0 =
     (EXIT_SUCCESS,
      \<lparr>pipe_out = [''4242: a.txt: /tmp/t/sub/a.txt'' @ [CHR 0x0A],
                   ''4242: a.txt: /tmp/t/a.txt'' @ [CHR 0x0A]], err_out = [],
       opened = [''/tmp/t'', ''/tmp/t/sub'']\<rparr>)"
    by (simp add: ex_defs to_string_4242)
  ultimately show ?thesis by blast
qed

text \<open>
  Claim C5 does not hold of the code, by the same short circuit. The root \<^verbatim>\<open>/tmp/r\<close>
  has no regular file of its own and two directories with a file \<^verbatim>\<open>a.txt\<close> each. The
  recursive search reports the file of the first directory only: the second directory
  is not opened and its file gets no Found line. The shallow search opens the root only
  and the task writes the NotFound line.
\<close>

theorem second_directory_not_entered:
  "child ex_env ''/tmp/r'' ''a.txt'' True False ex_two_dirs proc0 =
     (EXIT_SUCCESS,
      \<lparr>pipe_out = [''4242: a.txt: /tmp/r/sub1/a.txt'' @ [CHR 0x0A]], err_out = [],
       opened = [''/tmp/r'', ''/tmp/r/sub1'']\<rparr>) \<and>
   child ex_env ''/tmp/r'' ''a.txt'' False False ex_two_dirs proc0 =
     (EXIT_SUCCESS,
      \<lparr>pipe_out = [''4242: a.txt: File not found in /tmp/r'' @ [CHR 0x0A]], err_out = [],
       opened = [''/tmp/r'']\<rparr>)"
  by (simp add: ex_defs to_string_4242)

subsection \<open>Failures inside a task\<close>

text \<open>
  Claim C6. A directory that cannot be opened makes \<^verbatim>\<open>searchForFile\<close> return false
  for it, with one \<^verbatim>\<open>perror\<close> line on standard error and nothing written to the pipe.
  The loop of the parent directory goes on with the entries after it, with its flag as
  it was. When the root of the task cannot be opened and the pipe accepts the write, the
  task writes the NotFound line and ends with \<^verbatim>\<open>EXIT_SUCCESS\<close>.
\<close>

theorem open_failure_is_local:
  "searchForFile e path filename isRecursive ignoreCase (OpenFails errno) s =
     (Return False,
      s\<lparr>opened := opened s @ [path],
        err_out := err_out s @
          [Perror ((if errno = EACCES then ''Access denied to directory: ''
                    else ''Failed to open directory: '') @ path) errno]\<rparr>) \<and>
   (name \<noteq> ''.'' \<and> name \<noteq> ''..'' \<longrightarrow>
    readdir_loop e path filename True ignoreCase (Dirent name DT_DIR rp (OpenFails errno) # ents) isFound s =
      readdir_loop e path filename True ignoreCase ents isFound
        (if isFound then s
         else snd (searchForFile e (path @ ''/'' @ name) filename True ignoreCase (OpenFails errno) s))) \<and>
   (write_err e (length (pipe_out s)) = None \<longrightarrow>
    child e path filename isRecursive ignoreCase (OpenFails errno) s =
      (EXIT_SUCCESS,
       s\<lparr>opened := opened s @ [path],
         err_out := err_out s @
           [Perror ((if errno = EACCES then ''Access denied to directory: ''
                     else ''Failed to open directory: '') @ path) errno],
         pipe_out := pipe_out s @ [notfound_line (getpid e) filename path]\<rparr>))"
  by (simp add: handleErrorOpeningDir_def perror_def child_def write_pipe_def)

theorem open_failure_is_local_witness:
  "''locked'' \<noteq> ''.'' \<and> ''locked'' \<noteq> ''..'' \<and>
   write_err ex_env (length (pipe_out proc0)) = None \<and>
   searchForFile ex_env ''/tmp/l/locked'' ''a.txt'' True False (OpenFails EACCES) proc0 =
     (Return False,
      \<lparr>pipe_out = [], err_out = [Perror ''Access denied to directory: /tmp/l/locked'' 13],
       opened = [''/tmp/l/locked'']\<rparr>) \<and>
   readdir_loop ex_env ''/tmp/l'' ''a.txt'' True False
       [Dirent ''locked'' DT_DIR (Some ''/tmp/l/locked'') (OpenFails EACCES),
        regular ''a.txt'' ''/tmp/l/a.txt''] False proc0 =
     readdir_loop ex_env ''/tmp/l'' ''a.txt'' True False [regular ''a.txt'' ''/tmp/l/a.txt''] False
       \<lparr>pipe_out = [], err_out = [Perror ''Access denied to directory: /tmp/l/locked'' 13],
        opened = [''/tmp/l/locked'']\<rparr> \<and>
   child ex_env ''/tmp/l'' ''a.txt'' True False (OpenFails 2) proc0 =
     (EXIT_SUCCESS,
      \<lparr>pipe_out = [''4242: a.txt: File not found in /tmp/l'' @ [CHR 0x0A]],
       err_out = [Perror ''Failed to open directory: /tmp/l'' 2],
       opened = [''/tmp/l'']\<rparr>) \<and>
   child ex_env ''/tmp/l'' ''a.txt'' True False ex_locked proc0 =
     (EXIT_SUCCESS,
      \<lparr>pipe_out = [''4242: a.txt: /tmp/l/open/a.txt'' @ [CHR 0x0A]],
       err_out = [Perror ''Access denied to directory: /tmp/l/locked'' 13],
       opened = [''/tmp/l'', ''/tmp/l/locked'', ''/tmp/l/open'']\<rparr>)"
proof -
  have h1: "''locked'' \<noteq> ''.'' \<and> ''locked'' \<noteq> ''..''" by simp
  have h2: "write_err ex_env (length (pipe_out proc0)) = None" by (simp add: ex_defs)
  have a: "searchForFile ex_env ''/tmp/l/locked'' ''a.txt'' True False (OpenFails EACCES) proc0 =
     (Return False,
      \<lparr>pipe_out = [], err_out = [Perror ''Access denied to directory: /tmp/l/locked'' 13],
       opened = [''/tmp/l/locked'']\<rparr>)"
    using open_failure_is_local [of ex_env "''/tmp/l/locked''" "''a.txt''" True False EACCES proc0]
    by (simp add: proc0_def EACCES_def)
  have b: "readdir_loop ex_env ''/tmp/l'' ''a.txt'' True False
       [Dirent ''locked'' DT_DIR (Some ''/tmp/l/locked'') (OpenFails EACCES),
        regular ''a.txt'' ''/tmp/l/a.txt''] False proc0 =
     readdir_loop ex_env ''/tmp/l'' ''a.txt'' True False [regular ''a.txt'' ''/tmp/l/a.txt''] False
       \<lparr>pipe_out = [], err_out = [Perror ''Access denied to directory: /tmp/l/locked'' 13],
        opened = [''/tmp/l/locked'']\<rparr>"
    using open_failure_is_local [of ex_env "''/tmp/l''" "''a.txt''" True False EACCES proc0
        "''locked''" "Some ''/tmp/l/locked''" "[regular ''a.txt'' ''/tmp/l/a.txt'']" False] h1
    by (simp add: ex_defs EACCES_def to_string_4242)
  have c: "child ex_env ''/tmp/l'' ''a.txt'' True False (OpenFails 2) proc0 =
     (EXIT_SUCCESS,
      \<lparr>pipe_out = [''4242: a.txt: File not found in /tmp/l'' @ [CHR 0x0A]],
       err_out = [Perror ''Failed to open directory: /tmp/l'' 2],
       opened = [''/tmp/l'']\<rparr>)"
    using open_failure_is_local [of ex_env "''/tmp/l''" "''a.txt''" True False 2 proc0] h2
    by (simp add: ex_defs EACCES_def to_string_4242)
  have d: "child ex_env ''/tmp/l'' ''a.txt'' True False ex_locked proc0 =
     (EXIT_SUCCESS,
      \<lparr>pipe_out = [''4242: a.txt: /tmp/l/open/a.txt'' @ [CHR 0x0A]],
       err_out = [Perror ''Access denied to directory: /tmp/l/locked'' 13],
       opened = [''/tmp/l'', ''/tmp/l/locked'', ''/tmp/l/open'']\<rparr>)"
    by (simp add: ex_defs to_string_4242)
  from h1 h2 a b c d show ?thesis by blast
qed

text \<open>
  Claim C7. A regular file that matches the query and whose path \<^verbatim>\<open>realpath\<close> cannot
  resolve changes nothing: the loop goes on with the entries after it from the same
  state (no line on the pipe, none on standard error) and with the same flag. A root
  that holds only such a file gives the NotFound line, when the pipe accepts the write.
\<close>

theorem unresolved_match_dropped:
  "(isEqualString name filename ignoreCase \<longrightarrow>
    readdir_loop e path filename isRecursive ignoreCase (Dirent name DT_REG None d # ents) isFound s =
      readdir_loop e path filename isRecursive ignoreCase ents isFound s) \<and>
   (isEqualString name filename ignoreCase \<and> write_err e (length (pipe_out s)) = None \<longrightarrow>
    child e path filename isRecursive ignoreCase (Entries [Dirent name DT_REG None d]) s =
      (EXIT_SUCCESS,
       s\<lparr>opened := opened s @ [path],
         pipe_out := pipe_out s @ [notfound_line (getpid e) filename path]\<rparr>))"
  by (simp add: child_def write_pipe_def)


theorem unresolved_match_dropped_witness:
  "isEqualString ''a.txt'' ''a.txt'' False \<and>
   write_err ex_env (length (pipe_out proc0)) = None \<and>
   readdir_loop ex_env ''/tmp/d'' ''a.txt'' False False
       [Dirent ''a.txt'' DT_REG None (OpenFails 20), regular ''b.txt'' ''/tmp/d/b.txt''] False proc0 =
     readdir_loop ex_env ''/tmp/d'' ''a.txt'' False False [regular ''b.txt'' ''/tmp/d/b.txt''] False proc0 \<and>
   child ex_env ''/tmp/d'' ''a.txt'' False False (Entries [Dirent ''a.txt'' DT_REG None (OpenFails 20)]) proc0 =
     (EXIT_SUCCESS,
      \<lparr>pipe_out = [''4242: a.txt: File not found in /tmp/d'' @ [CHR 0x0A]], err_out = [],
       opened = [''/tmp/d'']\<rparr>)"
proof -
  have h1: "isEqualString ''a.txt'' ''a.txt'' False" by (simp add: isEqualString_def)
  have h2: "write_err ex_env (length (pipe_out proc0)) = None" by (simp add: ex_defs)
  note inst = unresolved_match_dropped [of "''a.txt''" "''a.txt''" False ex_env "''/tmp/d''" False
      "OpenFails 20" _ False proc0]
  have a: "readdir_loop ex_env ''/tmp/d'' ''a.txt'' False False
       [Dirent ''a.txt'' DT_REG None (OpenFails 20), regular ''b.txt'' ''/tmp/d/b.txt''] False proc0 =
     readdir_loop ex_env ''/tmp/d'' ''a.txt'' False False [regular ''b.txt'' ''/tmp/d/b.txt''] False proc0"
    using inst [of "[regular ''b.txt'' ''/tmp/d/b.txt'']"] h1 by blast
  have b: "child ex_env ''/tmp/d'' ''a.txt'' False False (Entries [Dirent ''a.txt'' DT_REG None (OpenFails 20)]) proc0 =
     (EXIT_SUCCESS,
      \<lparr>pipe_out = [''4242: a.txt: File not found in /tmp/d'' @ [CHR 0x0A]], err_out = [],
       opened = [''/tmp/d'']\<rparr>)"
    using inst [of "[]"] h1 h2 by (simp add: ex_defs to_string_4242)
  from h1 h2 a b show ?thesis by blast
qed

subsection \<open>Shallow and recursive search\<close>

lemma loop_descend:
  assumes "name \<noteq> ''.''" "name \<noteq> ''..''"
    "searchForFile e (path @ ''/'' @ name) filename True ignoreCase d s = (Return b, s1)"
  shows "readdir_loop e path filename True ignoreCase (Dirent name DT_DIR rp d # ents) False s =
         readdir_loop e path filename True ignoreCase ents b s1"
  using assms by simp

lemma shallow_subset_loop:
  assumes nofail: "\<And>n. write_err e n = None"
  shows "\<exists>ps qs.
     pipe_out (snd (readdir_loop e path fn False ic ents f1 s1)) =
       pipe_out s1 @ map (found_line (getpid e) fn) ps \<and>
     pipe_out (snd (readdir_loop e path fn True ic ents f2 s2)) =
       pipe_out s2 @ map (found_line (getpid e) fn) qs \<and>
     set ps \<subseteq> set qs"
proof (induction ents arbitrary: f1 f2 s1 s2)
  case Nil
  have "pipe_out (snd (readdir_loop e path fn False ic [] f1 s1)) = pipe_out s1 @ map (found_line (getpid e) fn) []"
    "pipe_out (snd (readdir_loop e path fn True ic [] f2 s2)) = pipe_out s2 @ map (found_line (getpid e) fn) []"
    by simp_all
  then show ?case by blast
next
  case (Cons ent ents)
  obtain name ty rp d where ent: "ent = Dirent name ty rp d" by (cases ent)
  let ?L = "found_line (getpid e) fn"
  let ?sh = "\<lambda>es f s. pipe_out (snd (readdir_loop e path fn False ic es f s))"
  let ?re = "\<lambda>es f s. pipe_out (snd (readdir_loop e path fn True ic es f s))"
  consider
      (pseudo) "name = ''.'' \<or> name = ''..''"
    | (dir) "name \<noteq> ''.''" "name \<noteq> ''..''" "ty = DT_DIR"
    | (reg) "name \<noteq> ''.''" "name \<noteq> ''..''" "ty = DT_REG" "isEqualString name fn ic"
    | (other) "name \<noteq> ''.''" "name \<noteq> ''..''" "ty \<noteq> DT_DIR" "\<not> (ty = DT_REG \<and> isEqualString name fn ic)"
    by blast
  then show ?case
  proof cases
    case pseudo
    then have "?sh (ent # ents) f1 s1 = ?sh ents f1 s1" "?re (ent # ents) f2 s2 = ?re ents f2 s2"
      unfolding ent by auto
    with Cons.IH [of f1 s1 f2 s2] show ?thesis by simp
  next
    case other
    then have "?sh (ent # ents) f1 s1 = ?sh ents f1 s1" "?re (ent # ents) f2 s2 = ?re ents f2 s2"
      unfolding ent by auto
    with Cons.IH [of f1 s1 f2 s2] show ?thesis by simp
  next
    case dir
    have sh: "?sh (ent # ents) f1 s1 = ?sh ents f1 s1"
      unfolding ent using dir by auto
    show ?thesis
    proof (cases f2)
      case True
      then have "?re (ent # ents) f2 s2 = ?re ents f2 s2"
        unfolding ent using dir by auto
      with sh Cons.IH [of f1 s1 f2 s2] show ?thesis by simp
    next
      case False
      show ?thesis
      proof (cases rule: search_cases [of e "path @ ''/'' @ name" fn True ic d s2])
        case (Exits s3 rs)
        with nofail show ?thesis by simp
      next
        case (Returns b s3 rs)
        have re: "?re (ent # ents) f2 s2 = ?re ents b s3"
          unfolding ent using dir False loop_descend [OF dir(1,2) Returns(1)] by simp
        from Cons.IH [of f1 s1 b s3] obtain ps qs where
          a: "?sh ents f1 s1 = pipe_out s1 @ map ?L ps"
          and b: "?re ents b s3 = pipe_out s3 @ map ?L qs"
          and c: "set ps \<subseteq> set qs" by blast
        have "?re (ent # ents) f2 s2 = pipe_out s2 @ map ?L (rs @ qs)"
          using re b Returns(2) by simp
        moreover have "set ps \<subseteq> set (rs @ qs)" using c by auto
        moreover have "?sh (ent # ents) f1 s1 = pipe_out s1 @ map ?L ps" using sh a by simp
        ultimately show ?thesis by blast
      qed
    qed
  next
    case reg
    show ?thesis
    proof (cases rp)
      case None
      then have "?sh (ent # ents) f1 s1 = ?sh ents f1 s1" "?re (ent # ents) f2 s2 = ?re ents f2 s2"
        unfolding ent using reg by auto
      with Cons.IH [of f1 s1 f2 s2] show ?thesis by simp
    next
      case (Some absPath)
      let ?s1 = "s1\<lparr>pipe_out := pipe_out s1 @ [?L absPath]\<rparr>"
      let ?s2 = "s2\<lparr>pipe_out := pipe_out s2 @ [?L absPath]\<rparr>"
      have sh: "?sh (ent # ents) f1 s1 = ?sh ents True ?s1"
        unfolding ent Some using reg nofail by (simp add: write_pipe_def)
      have re: "?re (ent # ents) f2 s2 = ?re ents True ?s2"
        unfolding ent Some using reg nofail by (simp add: write_pipe_def)
      from Cons.IH [of True ?s1 True ?s2] obtain ps qs where
        a: "?sh ents True ?s1 = pipe_out ?s1 @ map ?L ps"
        and b: "?re ents True ?s2 = pipe_out ?s2 @ map ?L qs"
        and c: "set ps \<subseteq> set qs" by blast
      have "?sh (ent # ents) f1 s1 = pipe_out s1 @ map ?L (absPath # ps)"
        using sh a by simp
      moreover have "?re (ent # ents) f2 s2 = pipe_out s2 @ map ?L (absPath # qs)"
        using re b by simp
      moreover have "set (absPath # ps) \<subseteq> set (absPath # qs)" using c by auto
      ultimately show ?thesis by blast
    qed
  qed
qed

text \<open>
  Claim C10. Over the same tree, file name and case policy, and with every write
  accepted, the paths of the Found lines a shallow search writes are among the paths of
  the Found lines the recursive search writes.
\<close>

theorem shallow_found_subset_recursive:
  assumes "\<forall>n. write_err e n = None"
  shows "\<exists>ps qs.
     pipe_out (snd (searchForFile e path filename False ignoreCase d s)) =
       pipe_out s @ map (found_line (getpid e) filename) ps \<and>
     pipe_out (snd (searchForFile e path filename True ignoreCase d s)) =
       pipe_out s @ map (found_line (getpid e) filename) qs \<and>
     set ps \<subseteq> set qs"
proof (cases d)
  case (OpenFails errno)
  then have "pipe_out (snd (searchForFile e path filename False ignoreCase d s)) =
       pipe_out s @ map (found_line (getpid e) filename) []"
    "pipe_out (snd (searchForFile e path filename True ignoreCase d s)) =
       pipe_out s @ map (found_line (getpid e) filename) []"
    by simp_all
  then show ?thesis by blast
next
  case (Entries ents)
  from assms have nofail: "\<And>n. write_err e n = None" by simp
  from shallow_subset_loop [of e path filename ignoreCase ents False "s\<lparr>opened := opened s @ [path]\<rparr>"
      False "s\<lparr>opened := opened s @ [path]\<rparr>", OF nofail]
  show ?thesis unfolding Entries by simp
qed

theorem shallow_found_subset_recursive_witness:
  "(\<forall>n. write_err ex_env n = None) \<and>
   (\<exists>ps qs.
     pipe_out (snd (searchForFile ex_env ''/tmp/t'' ''a.txt'' False False ex_dir_first proc0)) =
       pipe_out proc0 @ map (found_line (getpid ex_env) ''a.txt'') ps \<and>
     pipe_out (snd (searchForFile ex_env ''/tmp/t'' ''a.txt'' True False ex_dir_first proc0)) =
       pipe_out proc0 @ map (found_line (getpid ex_env) ''a.txt'') qs \<and>
     set ps \<subseteq> set qs) \<and>
   pipe_out (snd (searchForFile ex_env ''/tmp/t'' ''a.txt'' False False ex_dir_first proc0)) =
     [''4242: a.txt: /tmp/t/a.txt'' @ [CHR 0x0A]] \<and>
   pipe_out (snd (searchForFile ex_env ''/tmp/t'' ''a.txt'' True False ex_dir_first proc0)) =
     [''4242: a.txt: /tmp/t/sub/a.txt'' @ [CHR 0x0A], ''4242: a.txt: /tmp/t/a.txt'' @ [CHR 0x0A]]"
proof -
  have h: "\<forall>n. write_err ex_env n = None" by (simp add: ex_env_def)
  have a: "pipe_out (snd (searchForFile ex_env ''/tmp/t'' ''a.txt'' False False ex_dir_first proc0)) =
     [''4242: a.txt: /tmp/t/a.txt'' @ [CHR 0x0A]]"
    by (simp add: ex_defs to_string_4242)
  have b: "pipe_out (snd (searchForFile ex_env ''/tmp/t'' ''a.txt'' True False ex_dir_first proc0)) =
     [''4242: a.txt: /tmp/t/sub/a.txt'' @ [CHR 0x0A], ''4242: a.txt: /tmp/t/a.txt'' @ [CHR 0x0A]]"
    by (simp add: ex_defs to_string_4242)
  from shallow_found_subset_recursive [OF h, of "''/tmp/t''" "''a.txt''" False ex_dir_first proc0] h a b
  show ?thesis by blast
qed

subsection \<open>The run\<close>

lemma getopt_loop_exit: "getopt_loop opts r i = Exit status \<Longrightarrow> status = EXIT_FAILURE"
  by (induction opts r i rule: getopt_loop.induct) (auto split: if_splits)

text \<open>
  Claim C8. When the arguments left after option parsing are fewer than two (no search
  root, or a root and no file name), \<^verbatim>\<open>main\<close> exits with the non-zero status
  \<^verbatim>\<open>EXIT_FAILURE\<close> after one message on standard error, and it has made no pipe and
  forked no child: no process of the run opens a directory.
\<close>

theorem too_few_arguments_no_search:
  assumes "int (length argv) - 1 \<le> int (optind y)"
  shows "exit_status (main y argv) = EXIT_FAILURE \<and> exit_status (main y argv) \<noteq> 0 \<and>
         (parent_err (main y argv) = [Cerr (usage_line (hd argv))] \<or>
          parent_err (main y argv) =
            [Cerr (''Expected arguments after options'' @ [CHR 0x0A])]) \<and>
         \<not> pipe_made (main y argv) \<and> tasks (main y argv) = [] \<and>
         concat (map (\<lambda>t. opened (task_proc t)) (tasks (main y argv))) = []"
proof (cases "getopt_loop (getopt_rets y) False False")
  case (Exit status)
  then have "status = EXIT_FAILURE" by (rule getopt_loop_exit)
  with Exit show ?thesis by (simp add: main_def EXIT_FAILURE_def)
next
  case (Return flags)
  with assms show ?thesis by (cases flags) (simp add: main_def EXIT_FAILURE_def)
qed

theorem too_few_arguments_no_search_witness:
  "int (length [''myfind'', ''-R'', ''/tmp/t'']) - 1 \<le> int (optind ex_sys) \<and>
   main ex_sys [''myfind'', ''-R'', ''/tmp/t''] =
     \<lparr>exit_status = 1, parent_err = [Cerr (''Expected arguments after options'' @ [CHR 0x0A])],
      pipe_made = False, tasks = []\<rparr>"
proof -
  have h: "int (length [''myfind'', ''-R'', ''/tmp/t'']) - 1 \<le> int (optind ex_sys)"
    by (simp add: ex_sys_def)
  from too_few_arguments_no_search [OF h] h show ?thesis
    by (simp add: main_def ex_sys_def EXIT_FAILURE_def)
qed










end
